theory Spec2Isabelle
  imports Complex_Main "HOL-Library.Word" "HOL-Library.Log_Nat"
begin

section \<open>The PWM-to-serial converter of \<^verbatim>\<open>src/esp32/main.cpp\<close>\<close>

text \<open>
  The program measures the duty cycle of a PWM signal. An interrupt handler runs on every
  edge of the input pin and adds the time since the previous edge to one of two
  accumulators; the main loop prints, every quarter second, the share of the high time
  scaled by 3.3, and clears the accumulators.

  On the ESP32 \<^verbatim>\<open>unsigned long\<close> has 32 bits, so the three globals and the static local
  of \<^verbatim>\<open>loop\<close> are 32-bit words: addition and subtraction wrap around.
\<close>

subsection \<open>State\<close>

type_synonym ulong = "32 word"

record state =
  highTime :: ulong
  lowTime :: ulong
  lastTransitionTime :: ulong
  lastPrintTime :: ulong

text \<open>The initialisers of the source: all four variables start at zero.\<close>

definition initial_state :: state where
  "initial_state = \<lparr>highTime = 0, lowTime = 0, lastTransitionTime = 0, lastPrintTime = 0\<rparr>"

subsection \<open>The edge handler\<close>

text \<open>
  \<^verbatim>\<open>handleInterrupt\<close> reads the microsecond clock and the pin. Both readings come from
  the platform, so they are arguments here: \<open>currentTime\<close> is the value of \<^verbatim>\<open>micros()\<close>
  and \<open>pinHigh\<close> tells whether \<^verbatim>\<open>digitalRead(pwmPin) == HIGH\<close>.
\<close>

definition handleInterrupt :: "ulong \<Rightarrow> bool \<Rightarrow> state \<Rightarrow> state" where
  "handleInterrupt currentTime pinHigh s =
     (let timeSinceLastTransition = currentTime - lastTransitionTime s
      in if pinHigh
         then s\<lparr>lowTime := lowTime s + timeSinceLastTransition,
                lastTransitionTime := currentTime\<rparr>
         else s\<lparr>highTime := highTime s + timeSinceLastTransition,
                lastTransitionTime := currentTime\<rparr>)"

subsection \<open>Floating-point arithmetic\<close>

text \<open>
  The duty cycle is computed in \<^verbatim>\<open>float\<close> and \<^verbatim>\<open>double\<close>, on the ESP32 the IEEE 754 formats
  binary32 and binary64. A finite floating-point number is represented by its value, a
  rational; an operation is the exact operation followed by rounding to the nearest
  representable number, ties to the even significand. \<open>ilog2 x\<close> is the binary exponent of
  a positive \<open>x\<close>, that is \<open>\<lfloor>log\<^sub>2 x\<rfloor>\<close>; \<open>fl_round p emin\<close> rounds to \<open>p\<close> significant bits,
  with the exponent bounded below by \<open>emin\<close> (gradual underflow). Infinities and NaN have
  no representation: lemma \<open>float_of_ulong_pos\<close> shows that the divisor is never zero, and
  lemmas \<open>quotient_range\<close>, \<open>duty_cycle_range\<close> and \<open>printed_value_finite\<close> that no operation
  of the program leaves the finite range.
\<close>

definition ilog2 :: "rat \<Rightarrow> int" where
  "ilog2 x = (let (a, b) = quotient_of x; k = bitlen a - bitlen b
              in if 2 powi k \<le> x then k else k - 1)"

definition round_half_even :: "rat \<Rightarrow> int" where
  "round_half_even x =
     (let f = \<lfloor>x\<rfloor>; r = x - of_int f
      in if r < 1 / 2 then f
         else if 1 / 2 < r then f + 1
         else if even f then f else f + 1)"

definition fl_round :: "nat \<Rightarrow> int \<Rightarrow> rat \<Rightarrow> rat" where
  "fl_round p emin x =
     (if x = 0 then 0
      else let e = max (ilog2 \<bar>x\<bar>) emin; u = 2 powi (e - int p + 1)
           in sgn x * of_int (round_half_even (\<bar>x\<bar> / u)) * u)"

definition to_float :: "rat \<Rightarrow> rat" where
  "to_float = fl_round 24 (- 126)"

definition to_double :: "rat \<Rightarrow> rat" where
  "to_double = fl_round 53 (- 1022)"

text \<open>The cast \<^verbatim>\<open>(float)highTime\<close> of an unsigned 32-bit integer.\<close>

definition float_of_ulong :: "ulong \<Rightarrow> rat" where
  "float_of_ulong w = to_float (of_nat (unat w))"

text \<open>
  \<^verbatim>\<open>float dutyCycle = (float)highTime / (float)totalTime * 100.0;\<close>
  The quotient of two floats is a float; the literal \<^verbatim>\<open>100.0\<close> is a double, so the
  product is taken in double precision and rounded back to float by the initialisation.
\<close>

definition dutyCycle :: "ulong \<Rightarrow> ulong \<Rightarrow> rat" where
  "dutyCycle high totalTime =
     to_float (to_double (to_float (float_of_ulong high / float_of_ulong totalTime) * 100))"

text \<open>
  \<^verbatim>\<open>dutyCycle*3.3\<close>: the literal is the double nearest to 3.3 and the product is a double.
  This is the number handed to \<^verbatim>\<open>Serial.println\<close>; how the Arduino core prints it is not
  part of the program.
\<close>

definition printed_value :: "rat \<Rightarrow> rat" where
  "printed_value d = to_double (d * to_double (33 / 10))"

subsection \<open>The main loop\<close>

text \<open>
  One iteration of \<^verbatim>\<open>loop\<close>. The source calls \<^verbatim>\<open>millis()\<close> twice, once in the condition
  and once in the assignment to \<^verbatim>\<open>lastPrintTime\<close>; \<open>millis1\<close> and \<open>millis2\<close> are the two
  readings. The result is the new state and the value printed, if any. \<^verbatim>\<open>totalTime\<close> is a
  local; \<^verbatim>\<open>highTime\<close> is read once more for the division.
\<close>

definition loop :: "ulong \<Rightarrow> ulong \<Rightarrow> state \<Rightarrow> state \<times> rat option" where
  "loop millis1 millis2 s =
     (if 250 \<le> millis1 - lastPrintTime s
      then let s1 = s\<lparr>lastPrintTime := millis2\<rparr>;
               totalTime = highTime s1 + lowTime s1;
               out = (if 0 < totalTime
                      then Some (printed_value (dutyCycle (highTime s1) totalTime))
                      else None)
           in (s1\<lparr>highTime := 0, lowTime := 0\<rparr>, out)
      else (s, None))"

subsection \<open>Sequential runs\<close>

text \<open>
  A run of the program without preemption is a list of events. An event carries the time
  at which it happens as a natural number; the 32-bit clock register shows that time
  modulo \<open>2\<^sup>3\<^sup>2\<close>. \<open>Edge t pin\<close> is an interrupt at microsecond \<open>t\<close> with the pin reading
  \<open>pin\<close>; \<open>Poll t1 t2\<close> is a loop iteration whose two calls of \<^verbatim>\<open>millis()\<close> happen at
  milliseconds \<open>t1\<close> and \<open>t2\<close>.
\<close>

datatype event = Edge nat bool | Poll nat nat

fun step :: "state \<Rightarrow> event \<Rightarrow> state \<times> rat option" where
  "step s (Edge t pin) = (handleInterrupt (of_nat t) pin s, None)"
| "step s (Poll t1 t2) = loop (of_nat t1) (of_nat t2) s"

fun final :: "state \<Rightarrow> event list \<Rightarrow> state" where
  "final s [] = s"
| "final s (e # es) = final (fst (step s e)) es"

text \<open>The printed lines of a run, each with the time of the iteration that printed it.\<close>

fun stamp :: "event \<Rightarrow> nat" where
  "stamp (Edge t pin) = t"
| "stamp (Poll t1 t2) = t1"

fun lines :: "state \<Rightarrow> event list \<Rightarrow> (nat \<times> rat) list" where
  "lines s [] = []"
| "lines s (e # es) =
     (case snd (step s e) of
        None \<Rightarrow> lines (fst (step s e)) es
      | Some v \<Rightarrow> (stamp e, v) # lines (fst (step s e)) es)"

text \<open>
  \<open>transitions t ds\<close> is the run of edges whose delays are \<open>ds\<close>, starting at time \<open>t\<close>:
  each edge comes with the delay since the previous one and the pin reading after it.
\<close>

fun transitions :: "nat \<Rightarrow> (nat \<times> bool) list \<Rightarrow> event list" where
  "transitions t [] = []"
| "transitions t ((d, pin) # ds) = Edge (t + d) pin # transitions (t + d) ds"

text \<open>\<open>quiet s es\<close>: no iteration of the loop in the run \<open>es\<close> from \<open>s\<close> reaches the cadence.\<close>

fun quiet :: "state \<Rightarrow> event list \<Rightarrow> bool" where
  "quiet s [] = True"
| "quiet s (Edge t pin # es) = quiet (fst (step s (Edge t pin))) es"
| "quiet s (Poll t1 t2 # es) =
     (of_nat t1 - lastPrintTime s < 250 \<and> quiet (fst (step s (Poll t1 t2))) es)"

text \<open>
  \<open>chrono T es\<close>: the millisecond clock never runs backwards in \<open>es\<close>, and no reading is
  earlier than \<open>T\<close>.
\<close>

fun chrono :: "nat \<Rightarrow> event list \<Rightarrow> bool" where
  "chrono T [] = True"
| "chrono T (Edge t pin # es) = chrono T es"
| "chrono T (Poll t1 t2 # es) = (T \<le> t1 \<and> t1 \<le> t2 \<and> chrono t2 es)"

subsection \<open>The reporter as the specification words it\<close>

text \<open>
  The specification describes the reporting step with one clock reading \<open>now_ms\<close>, used for
  the elapsed check and stored in \<^verbatim>\<open>lastPrintTime\<close>, and with both accumulators copied into
  locals \<open>high\<close> and \<open>low\<close> before anything is computed. This second definition follows
  those eight steps, with \<open>dutyCyclePercent\<close> and the emitted number computed from the two
  locals; the numbers are floats and doubles as in the code.
\<close>

definition periodic_reporter_spec :: "ulong \<Rightarrow> state \<Rightarrow> state \<times> rat option" where
  "periodic_reporter_spec now_ms s =
     (let elapsed_ms = now_ms - lastPrintTime s
      in if elapsed_ms < 250 then (s, None)
         else let s1 = s\<lparr>lastPrintTime := now_ms\<rparr>;
                  high = highTime s1;
                  low = lowTime s1;
                  totalTime = high + low;
                  out = (if totalTime = 0 then None
                         else let dutyCyclePercent =
                                to_float (to_double
                                  (to_float (float_of_ulong high / float_of_ulong totalTime) * 100))
                              in Some (to_double (dutyCyclePercent * to_double (33 / 10))))
              in (s1\<lparr>highTime := 0, lowTime := 0\<rparr>, out))"

section \<open>Properties of the rounding functions\<close>

lemma p2_add: "(2::rat) powi (a + b) = 2 powi a * 2 powi b"
  by (simp add: power_int_add)

lemma p2_diff: "(2::rat) powi (a - b) = 2 powi a / 2 powi b"
  by (simp add: power_int_diff)

lemma p2_pos: "0 < (2::rat) powi a"
  by simp

lemma p2_mono: "a \<le> b \<Longrightarrow> (2::rat) powi a \<le> 2 powi b"
  by (simp add: power_int_increasing)

lemma quotient_of_pos_parts:
  assumes "0 < x" "quotient_of x = (a, b)"
  shows "0 < a" "0 < b" "x = of_int a / of_int b"
  using assms quotient_of_denom_pos[of x a b] quotient_of_div[of x a b] 
  by (auto simp: zero_less_divide_iff)

lemma ilog2_bounds:
  assumes "0 < x"
  shows "2 powi ilog2 x \<le> x" "x < 2 powi (ilog2 x + 1)"
proof -
  obtain a b where ab: "quotient_of x = (a, b)" by (cases "quotient_of x")
  from quotient_of_pos_parts[OF assms ab] have a: "0 < a" and b: "0 < b" and x: "x = of_int a / of_int b" by auto
  define k where "k = bitlen a - bitlen b"
  have la: "2 ^ nat (bitlen a - 1) \<le> a" "a < 2 ^ nat (bitlen a)" using bitlen_bounds[OF a] by auto
  have lb: "2 ^ nat (bitlen b - 1) \<le> b" "b < 2 ^ nat (bitlen b)" using bitlen_bounds[OF b] by auto
  have pa: "1 \<le> bitlen a" using a by (auto simp: bitlen_alt_def)
  have pb: "1 \<le> bitlen b" using b by (auto simp: bitlen_alt_def)
  have cv: "(2::rat) powi j = of_int (2 ^ nat j)" if "0 \<le> j" for j
    using that by (simp add: power_int_def)
  have ra: "(2::rat) powi (bitlen a - 1) \<le> of_int a" "of_int a < (2::rat) powi (bitlen a)"
  proof -
    have "rat_of_int (2 ^ nat (bitlen a - 1)) \<le> of_int a" using la(1) by (simp only: of_int_le_iff)
    then show "(2::rat) powi (bitlen a - 1) \<le> of_int a" using pa by (simp only: cv)
    have "rat_of_int a < of_int (2 ^ nat (bitlen a))" using la(2) by (simp only: of_int_less_iff)
    then show "of_int a < (2::rat) powi (bitlen a)" using pa by (simp only: cv)
  qed
  have rb: "(2::rat) powi (bitlen b - 1) \<le> of_int b" "of_int b < (2::rat) powi (bitlen b)"
  proof -
    have "rat_of_int (2 ^ nat (bitlen b - 1)) \<le> of_int b" using lb(1) by (simp only: of_int_le_iff)
    then show "(2::rat) powi (bitlen b - 1) \<le> of_int b" using pb by (simp only: cv)
    have "rat_of_int b < of_int (2 ^ nat (bitlen b))" using lb(2) by (simp only: of_int_less_iff)
    then show "of_int b < (2::rat) powi (bitlen b)" using pb by (simp only: cv)
  qed
  have b0: "(0::rat) < of_int b" using b by simp
  have k1: "k - 1 = (bitlen a - 1) - bitlen b" and k2: "k + 1 = bitlen a - (bitlen b - 1)"
    by (simp_all add: k_def)
  have "(2::rat) powi (k - 1) = 2 powi (bitlen a - 1) / 2 powi (bitlen b)"
    unfolding k1 by (simp only: p2_diff)
  also have "\<dots> \<le> of_int a / 2 powi (bitlen b)"
    using ra(1) by (simp add: divide_right_mono)
  also have "\<dots> < of_int a / of_int b"
    using rb(2) a b0 by (simp add: divide_strict_left_mono)
  finally have lo: "(2::rat) powi (k - 1) < x" by (simp add: x)
  have "x = of_int a / of_int b" by (rule x)
  also have "\<dots> < 2 powi (bitlen a) / of_int b"
    using ra(2) b0 by (simp add: divide_strict_right_mono)
  also have "\<dots> \<le>  2 powi (bitlen a) / 2 powi (bitlen b - 1)"
    using rb(1) b0 by (simp add: divide_left_mono)
  also have "\<dots> = 2 powi (k + 1)" 
    unfolding k2 by (simp only: p2_diff)
  finally have hi: "x < (2::rat) powi (k + 1)" .
  have e: "ilog2 x = (if 2 powi k \<le> x then k else k - 1)"
    by (simp add: ilog2_def ab k_def Let_def)
  show "2 powi ilog2 x \<le> x" using lo by (simp add: e)
  show "x < 2 powi (ilog2 x + 1)" using hi by (auto simp add: e not_le)
qed

lemma ilog2_unique:
  assumes "0 < x" "2 powi k \<le> x" "x < 2 powi (k + 1)"
  shows "ilog2 x = k"
proof (rule antisym)
  show "ilog2 x \<le> k"
  proof (rule ccontr)
    assume "\<not> ilog2 x \<le> k"
    then have "k + 1 \<le> ilog2 x" by simp
    then have "(2::rat) powi (k + 1) \<le> 2 powi ilog2 x" by (rule p2_mono)
    with ilog2_bounds(1)[OF assms(1)] assms(3) show False by simp
  qed
  show "k \<le> ilog2 x"
  proof (rule ccontr)
    assume "\<not> k \<le> ilog2 x"
    then have "ilog2 x + 1 \<le> k" by simp
    then have "(2::rat) powi (ilog2 x + 1) \<le> 2 powi k" by (rule p2_mono)
    with ilog2_bounds(2)[OF assms(1)] assms(2) show False by simp
  qed
qed

lemma ilog2_mono:
  assumes "0 < x" "x \<le> y"
  shows "ilog2 x \<le> ilog2 y"
proof (rule ccontr)
  assume "\<not> ilog2 x \<le> ilog2 y"
  then have "ilog2 y + 1 \<le> ilog2 x" by simp
  then have "(2::rat) powi (ilog2 y + 1) \<le> 2 powi ilog2 x" by (rule p2_mono)
  moreover have "0 < y" using assms by simp
  ultimately show False
    using ilog2_bounds(1)[OF assms(1)] ilog2_bounds(2)[of y] assms(2) by simp
qed

lemma round_half_even_of_int: "round_half_even (of_int n) = n"
  by (simp add: round_half_even_def)

lemma round_half_even_range:
  "\<lfloor>x\<rfloor> \<le> round_half_even x" "round_half_even x \<le> \<lfloor>x\<rfloor> + 1"
  by (simp_all add: round_half_even_def Let_def)

lemma round_half_even_mono:
  assumes "x \<le> y"
  shows "round_half_even x \<le> round_half_even y"
proof (cases "\<lfloor>x\<rfloor> = \<lfloor>y\<rfloor>")
  case True
  then have "x - of_int \<lfloor>x\<rfloor> \<le> y - of_int \<lfloor>y\<rfloor>" using assms by simp
  then show ?thesis using True by (auto simp: round_half_even_def Let_def)
next
  case False
  then have "\<lfloor>x\<rfloor> + 1 \<le> \<lfloor>y\<rfloor>" using floor_mono[OF assms] by simp
  then show ?thesis
    using round_half_even_range(2)[of x] round_half_even_range(1)[of y] by simp
qed

lemma p2_nat: "(2::rat) powi int n = of_int (2 ^ n)"
  by (simp add: power_int_def)

lemma fl_round_pos_eq:
  assumes "0 < x"
  shows "fl_round p emin x =
    of_int (round_half_even (x / 2 powi (max (ilog2 x) emin - int p + 1))) *
      2 powi (max (ilog2 x) emin - int p + 1)"
  using assms by (simp add: fl_round_def Let_def)

lemma fl_round_nonneg:
  assumes "0 \<le> x"
  shows "0 \<le> fl_round p emin x"
proof (cases "x = 0")
  case True
  then show ?thesis by (simp add: fl_round_def)
next
  case False
  then have x: "0 < x" using assms by simp
  let ?u = "(2::rat) powi (max (ilog2 x) emin - int p + 1)"
  have "0 \<le> x / ?u" using x by simp
  then have "round_half_even 0 \<le> round_half_even (x / ?u)" by (rule round_half_even_mono)
  then have "0 \<le> round_half_even (x / ?u)" using round_half_even_of_int[of 0] by simp
  then show ?thesis unfolding fl_round_pos_eq[OF x] by simp
qed

lemma fl_round_upper:
  assumes "0 < x"
  shows "fl_round p emin x \<le> 2 powi (max (ilog2 x) emin + 1)"
proof -
  let ?E = "max (ilog2 x) emin"
  let ?u = "(2::rat) powi (?E - int p + 1)"
  have u: "0 < ?u" by (rule p2_pos)
  have "x < 2 powi (ilog2 x + 1)" by (rule ilog2_bounds(2)[OF assms])
  also have "\<dots> \<le> 2 powi (?E + 1)" by (rule p2_mono) simp
  finally have "x / ?u \<le> 2 powi (?E + 1) / ?u" using u by (simp add: divide_right_mono)
  also have "\<dots> = 2 powi ((?E + 1) - (?E - int p + 1))" by (simp only: p2_diff)
  also have "\<dots> = 2 powi int p" by simp
  also have "\<dots> = of_int (2 ^ p)" by (rule p2_nat)
  finally have "round_half_even (x / ?u) \<le> round_half_even (of_int (2 ^ p))"
    by (rule round_half_even_mono)
  then have "round_half_even (x / ?u) \<le> 2 ^ p" by (simp only: round_half_even_of_int)
  then have "rat_of_int (round_half_even (x / ?u)) \<le> of_int (2 ^ p)" by (simp only: of_int_le_iff)
  then have "of_int (round_half_even (x / ?u)) * ?u \<le> of_int (2 ^ p) * ?u"
    using u by (simp only: mult_le_cancel_right_pos)
  also have "\<dots> = 2 powi int p * ?u" by (simp only: p2_nat)
  also have "\<dots> = 2 powi (int p + (?E - int p + 1))" by (simp only: p2_add)
  also have "\<dots> = 2 powi (?E + 1)" by simp
  finally show ?thesis unfolding fl_round_pos_eq[OF assms] .
qed

lemma fl_round_lower:
  assumes "0 < x" "emin \<le> ilog2 x" "0 < p"
  shows "2 powi ilog2 x \<le> fl_round p emin x"
proof -
  let ?E = "max (ilog2 x) emin"
  let ?u = "(2::rat) powi (?E - int p + 1)"
  have E: "?E = ilog2 x" using assms(2) by simp
  have u: "0 < ?u" by (rule p2_pos)
  obtain q where q: "p = Suc q" using assms(3) by (cases p) auto
  have "(2::rat) powi int q * ?u = 2 powi (int q + (?E - int p + 1))" by (simp only: p2_add)
  also have "\<dots> = 2 powi ilog2 x" by (simp add: q E)
  finally have pq: "(2::rat) powi int q * ?u = 2 powi ilog2 x" .
  have "rat_of_int (2 ^ q) = 2 powi int q" by (simp only: p2_nat)
  also have "\<dots> = 2 powi ilog2 x / ?u" using pq u by (simp add: field_simps)
  also have "\<dots> \<le> x / ?u" using ilog2_bounds(1)[OF assms(1)] u by (simp add: divide_right_mono)
  finally have "round_half_even (of_int (2 ^ q)) \<le> round_half_even (x / ?u)"
    by (rule round_half_even_mono)
  then have "2 ^ q \<le> round_half_even (x / ?u)" by (simp only: round_half_even_of_int)
  then have "rat_of_int (2 ^ q) \<le> of_int (round_half_even (x / ?u))" by (simp only: of_int_le_iff)
  then have "of_int (2 ^ q) * ?u \<le> of_int (round_half_even (x / ?u)) * ?u"
    using u by (simp only: mult_le_cancel_right_pos)
  then have "2 powi int q * ?u \<le> of_int (round_half_even (x / ?u)) * ?u" by (simp only: p2_nat)
  then show ?thesis unfolding fl_round_pos_eq[OF assms(1)] pq .
qed

lemma fl_round_mono:
  assumes "0 \<le> x" "x \<le> y" "0 < p"
  shows "fl_round p emin x \<le> fl_round p emin y"
proof (cases "x = 0")
  case True
  have "0 \<le> fl_round p emin y" using assms by (intro fl_round_nonneg) simp
  then show ?thesis using True by (simp add: fl_round_def)
next
  case False
  then have x: "0 < x" using assms by simp
  then have y: "0 < y" using assms by simp
  let ?Ex = "max (ilog2 x) emin" and ?Ey = "max (ilog2 y) emin"
  have le: "?Ex \<le> ?Ey" using ilog2_mono[OF x assms(2)] by simp
  show ?thesis
  proof (cases "?Ex = ?Ey")
    case True
    let ?u = "(2::rat) powi (?Ey - int p + 1)"
    have u: "0 < ?u" by (rule p2_pos)
    have "x / ?u \<le> y / ?u" using assms(2) u by (simp add: divide_right_mono)
    then have "round_half_even (x / ?u) \<le> round_half_even (y / ?u)" by (rule round_half_even_mono)
    then have "rat_of_int (round_half_even (x / ?u)) \<le> of_int (round_half_even (y / ?u))"
      by (simp only: of_int_le_iff)
    then have "of_int (round_half_even (x / ?u)) * ?u \<le> of_int (round_half_even (y / ?u)) * ?u"
      using u by (simp only: mult_le_cancel_right_pos)
    then show ?thesis unfolding fl_round_pos_eq[OF x] fl_round_pos_eq[OF y] True .
  next
    case False
    then have lt: "?Ex + 1 \<le> ?Ey" using le by simp
    then have n: "emin \<le> ilog2 y" and Ey: "?Ey = ilog2 y" by auto
    have "fl_round p emin x \<le> 2 powi (?Ex + 1)" by (rule fl_round_upper[OF x])
    also have "\<dots> \<le> 2 powi ?Ey" using lt by (rule p2_mono)
    also have "\<dots> = 2 powi ilog2 y" by (simp only: Ey)
    also have "\<dots> \<le> fl_round p emin y" by (rule fl_round_lower[OF y n assms(3)])
    finally show ?thesis .
  qed
qed

text \<open>
  In the normal range the relative error of rounding to \<open>p\<close> bits is at most \<open>2\<^sup>-\<^sup>p\<close>. The
  last three lemmas compose such bounds along a computation.
\<close>

lemma round_half_even_error: "\<bar>of_int (round_half_even x) - x\<bar> \<le> 1 / 2"
proof -
  have "of_int \<lfloor>x\<rfloor> \<le> x" "x < of_int \<lfloor>x\<rfloor> + 1" by linarith+
  then show ?thesis
    by (auto simp: round_half_even_def Let_def abs_le_iff)
qed

lemma ilog2_ge:
  assumes "2 powi k \<le> x"
  shows "k \<le> ilog2 x"
proof (rule ccontr)
  have x: "0 < x" by (rule less_le_trans[OF p2_pos assms])
  assume "\<not> k \<le> ilog2 x"
  then have "ilog2 x + 1 \<le> k" by simp
  then have "(2::rat) powi (ilog2 x + 1) \<le> 2 powi k" by (rule p2_mono)
  with ilog2_bounds(2)[OF x] assms show False by simp
qed

lemma fl_round_rel_error:
  assumes "2 powi emin \<le> x"
  shows "(1 - 1 / 2 ^ p) * x \<le> fl_round p emin x"
    and "fl_round p emin x \<le> (1 + 1 / 2 ^ p) * x"
proof -
  have x: "0 < x" by (rule less_le_trans[OF p2_pos assms])
  have n: "emin \<le> ilog2 x" by (rule ilog2_ge[OF assms])
  let ?u = "(2::rat) powi (ilog2 x - int p + 1)"
  have u: "0 < ?u" by (rule p2_pos)
  have R: "fl_round p emin x = of_int (round_half_even (x / ?u)) * ?u"
    using fl_round_pos_eq[OF x, of p emin] n by (simp add: max_def)
  have "fl_round p emin x - x = (of_int (round_half_even (x / ?u)) - x / ?u) * ?u"
    using u by (simp add: R left_diff_distrib)
  then have "\<bar>fl_round p emin x - x\<bar> = \<bar>of_int (round_half_even (x / ?u)) - x / ?u\<bar> * \<bar>?u\<bar>"
    by (simp only: abs_mult)
  also have "\<bar>?u\<bar> = ?u" using u by simp
  finally have "\<bar>fl_round p emin x - x\<bar> = \<bar>of_int (round_half_even (x / ?u)) - x / ?u\<bar> * ?u" .
  also have "\<dots> \<le> 1 / 2 * ?u"
    using round_half_even_error[of "x / ?u"] u by (simp only: mult_le_cancel_right_pos)
  also have "1 / 2 * ?u = 2 powi (- 1) * ?u" by (simp add: power_int_minus)
  also have "\<dots> = 2 powi (- 1 + (ilog2 x - int p + 1))" by (simp only: p2_add)
  also have "\<dots> = 2 powi (ilog2 x + (- int p))" by simp
  also have "\<dots> = 2 powi ilog2 x * 2 powi (- int p)" by (simp only: p2_add)
  also have "\<dots> \<le> x * 2 powi (- int p)"
    using ilog2_bounds(1)[OF x] p2_pos[of "- int p"] by (simp only: mult_le_cancel_right_pos)
  also have "2 powi (- int p) = 1 / (2::rat) ^ p" by (simp add: power_int_minus field_simps)
  finally have e: "\<bar>fl_round p emin x - x\<bar> \<le> x * (1 / 2 ^ p)" .
  from e show "(1 - 1 / 2 ^ p) * x \<le> fl_round p emin x"
    by (simp add: abs_le_iff algebra_simps)
  from e show "fl_round p emin x \<le> (1 + 1 / 2 ^ p) * x"
    by (simp add: abs_le_iff algebra_simps)
qed

lemma rel_chain:
  fixes x y z :: rat
  assumes "0 \<le> l2" "0 \<le> u2" "l1 * x \<le> y" "y \<le> u1 * x" "l2 * y \<le> z" "z \<le> u2 * y"
  shows "l2 * l1 * x \<le> z" "z \<le> u2 * u1 * x"
proof -
  have "l2 * (l1 * x) \<le> l2 * y" using assms(1,3) by (rule mult_left_mono[rotated])
  then show "l2 * l1 * x \<le> z" using assms(5) by (simp add: mult.assoc)
  have "u2 * y \<le> u2 * (u1 * x)" using assms(2,4) by (rule mult_left_mono[rotated])
  then show "z \<le> u2 * u1 * x" using assms(6) by (simp add: mult.assoc)
qed

lemma rel_quotient:
  fixes H T a b :: rat
  assumes "0 \<le> H" "0 < T" "0 \<le> l1" "0 < l2"
    and "l1 * H \<le> a" "a \<le> u1 * H" "l2 * T \<le> b" "b \<le> u2 * T"
  shows "l1 / u2 * (H / T) \<le> a / b" "a / b \<le> u1 / l2 * (H / T)"
proof -
  have b: "0 < b" using assms(2,4,7) by (meson mult_pos_pos less_le_trans)
  have lT: "0 < l2 * T" using assms(2,4) by simp
  have "0 \<le> l1 * H" using assms(1,3) by simp
  then have a: "0 \<le> a" using assms(5) by simp
  have "l1 * H / (u2 * T) \<le> a / b"
    by (rule frac_le[OF a assms(5) b assms(8)])
  then show "l1 / u2 * (H / T) \<le> a / b" by simp
  have "0 \<le> u1 * H" using a assms(6) by simp
  then have "a / b \<le> u1 * H / (l2 * T)"
    by (rule frac_le[OF _ assms(6) lT assms(7)])
  then show "a / b \<le> u1 / l2 * (H / T)" by simp
qed

lemma to_float_rel_error:
  assumes "1 / 2 ^ 126 \<le> x"
  shows "(1 - 1 / 2 ^ 24) * x \<le> to_float x" and "to_float x \<le> (1 + 1 / 2 ^ 24) * x"
proof -
  have "(2::rat) powi (- 126) = 1 / 2 ^ 126" by (simp add: power_int_minus field_simps)
  then have "2 powi (- 126) \<le> x" using assms by simp
  from fl_round_rel_error[OF this, of 24]
  show "(1 - 1 / 2 ^ 24) * x \<le> to_float x" and "to_float x \<le> (1 + 1 / 2 ^ 24) * x"
    unfolding to_float_def by blast+
qed

lemma to_double_rel_error:
  assumes "1 / 2 ^ 1022 \<le> x"
  shows "(1 - 1 / 2 ^ 53) * x \<le> to_double x" and "to_double x \<le> (1 + 1 / 2 ^ 53) * x"
proof -
  have "(2::rat) powi (- 1022) = 1 / 2 ^ 1022" by (simp add: power_int_minus field_simps)
  then have "2 powi (- 1022) \<le> x" using assms by simp
  from fl_round_rel_error[OF this, of 53]
  show "(1 - 1 / 2 ^ 53) * x \<le> to_double x" and "to_double x \<le> (1 + 1 / 2 ^ 53) * x"
    unfolding to_double_def by blast+
qed

lemma rel_lower:
  fixes x y :: rat
  assumes "l * x \<le> y" "1 / 2 \<le> l" "1 / 2 ^ 32 \<le> x"
  shows "1 / 2 ^ 126 \<le> y" and "1 / 2 ^ 1022 \<le> y"
proof -
  have "1 / 2 * (1 / 2 ^ 32) \<le> l * x"
    by (rule mult_mono[OF assms(2,3)]) (use assms(2) in simp_all)
  then have y: "1 / 2 ^ 33 \<le> y" using assms(1) by simp
  have "(1::rat) / 2 ^ 126 \<le> 1 / 2 ^ 33" by simp
  then show "1 / 2 ^ 126 \<le> y" using y by (rule order_trans)
  have "(1::rat) / 2 ^ 1022 \<le> 1 / 2 ^ 33" by simp
  then show "1 / 2 ^ 1022 \<le> y" using y by (rule order_trans)
qed

section \<open>Properties of the duty-cycle computation\<close>

lemma to_float_1: "to_float 1 = 1" unfolding to_float_def by code_simp
lemma to_float_100: "to_float 100 = 100" unfolding to_float_def by code_simp
lemma to_double_100: "to_double 100 = 100" unfolding to_double_def by code_simp
lemma to_float_2_32: "to_float 4294967296 = 4294967296" unfolding to_float_def by code_simp
lemma printed_value_100: "printed_value 100 = 330" unfolding printed_value_def to_double_def by code_simp
lemma double_3_3: "to_double (33 / 10) = 3715469692580659 / 1125899906842624"
  unfolding to_double_def by code_simp

lemma to_float_mono: "0 \<le> x \<Longrightarrow> x \<le> y \<Longrightarrow> to_float x \<le> to_float y"
  unfolding to_float_def by (rule fl_round_mono) simp_all

lemma to_double_mono: "0 \<le> x \<Longrightarrow> x \<le> y \<Longrightarrow> to_double x \<le> to_double y"
  unfolding to_double_def by (rule fl_round_mono) simp_all

lemma to_float_nonneg: "0 \<le> x \<Longrightarrow> 0 \<le> to_float x"
  unfolding to_float_def by (rule fl_round_nonneg)

lemma to_double_nonneg: "0 \<le> x \<Longrightarrow> 0 \<le> to_double x"
  unfolding to_double_def by (rule fl_round_nonneg)

lemma float_of_ulong_mono: "a \<le> b \<Longrightarrow> float_of_ulong a \<le> float_of_ulong b"
  unfolding float_of_ulong_def by (rule to_float_mono) (simp_all add: word_le_nat_alt del: of_nat_unat)

lemma float_of_ulong_nonneg: "0 \<le> float_of_ulong w"
  unfolding float_of_ulong_def by (rule to_float_nonneg) (simp del: of_nat_unat)

lemma float_of_ulong_pos:
  assumes "0 < w"
  shows "1 \<le> float_of_ulong w"
proof -
  have "1 \<le> unat w" using assms by (simp add: word_less_nat_alt)
  then have "(1::rat) \<le> of_nat (unat w)" by (metis of_nat_1 of_nat_le_iff)
  then have "to_float 1 \<le> to_float (of_nat (unat w))" by (intro to_float_mono) simp_all
  then show ?thesis by (simp add: float_of_ulong_def to_float_1)
qed

lemma float_of_ulong_le: "float_of_ulong w \<le> 4294967296"
proof -
  have "unat w < 2 ^ 32" using unsigned_less[of w] by simp
  then have "unat w \<le> 4294967296" by simp
  then have "(of_nat (unat w) :: rat) \<le> of_nat 4294967296" by (simp only: of_nat_le_iff)
  then have "(of_nat (unat w) :: rat) \<le> 4294967296" by simp
  then have "to_float (of_nat (unat w)) \<le> to_float 4294967296"
    by (intro to_float_mono) (simp_all del: of_nat_unat)
  then show ?thesis by (simp add: float_of_ulong_def to_float_2_32)
qed

text \<open>
  Every intermediate result of the computation is non-negative and far below the overflow
  thresholds \<open>2\<^sup>1\<^sup>2\<^sup>8\<close> of binary32 and \<open>2\<^sup>1\<^sup>0\<^sup>2\<^sup>4\<close> of binary64.
\<close>

lemma quotient_range:
  assumes "0 < t"
  shows "0 \<le> to_float (float_of_ulong h / float_of_ulong t)"
    and "to_float (float_of_ulong h / float_of_ulong t) \<le> 4294967296"
proof -
  have t: "1 \<le> float_of_ulong t" by (rule float_of_ulong_pos[OF assms])
  have h0: "0 \<le> float_of_ulong h" by (rule float_of_ulong_nonneg)
  have q0: "0 \<le> float_of_ulong h / float_of_ulong t" using t h0 by simp
  have "float_of_ulong h / float_of_ulong t \<le> float_of_ulong h"
    using t h0 by (simp add: divide_le_eq mult_le_cancel_left1)
  also have "\<dots> \<le> 4294967296" by (rule float_of_ulong_le)
  finally have "to_float (float_of_ulong h / float_of_ulong t) \<le> to_float 4294967296"
    by (rule to_float_mono[OF q0])
  then show "to_float (float_of_ulong h / float_of_ulong t) \<le> 4294967296"
    by (simp only: to_float_2_32)
  show "0 \<le> to_float (float_of_ulong h / float_of_ulong t)"
    by (rule to_float_nonneg[OF q0])
qed

lemma to_float_0: "to_float 0 = 0"
  by (simp add: to_float_def fl_round_def)

lemma to_double_0: "to_double 0 = 0"
  by (simp add: to_double_def fl_round_def)

lemma float_of_ulong_0: "float_of_ulong 0 = 0"
  by (simp add: float_of_ulong_def to_float_0)

lemma duty_cycle_range:
  assumes "0 < t"
  shows "0 \<le> dutyCycle h t" and "dutyCycle h t \<le> 549755813888"
proof -
  let ?q = "to_float (float_of_ulong h / float_of_ulong t)"
  have q: "0 \<le> ?q" "?q \<le> 4294967296" using quotient_range[OF assms] by auto
  have p0: "0 \<le> ?q * 100" using q(1) by simp
  have d0: "0 \<le> to_double (?q * 100)" by (rule to_double_nonneg[OF p0])
  show "0 \<le> dutyCycle h t" unfolding dutyCycle_def by (rule to_float_nonneg[OF d0])
  have "?q * 100 \<le> 549755813888" using q(2) by simp
  then have "to_double (?q * 100) \<le> to_double 549755813888" by (rule to_double_mono[OF p0])
  also have "to_double 549755813888 = 549755813888" unfolding to_double_def by code_simp
  finally have "to_float (to_double (?q * 100)) \<le> to_float 549755813888"
    by (rule to_float_mono[OF d0])
  also have "to_float 549755813888 = 549755813888" unfolding to_float_def by code_simp
  finally show "dutyCycle h t \<le> 549755813888" unfolding dutyCycle_def .
qed

lemma printed_value_mono: "0 \<le> x \<Longrightarrow> x \<le> y \<Longrightarrow> printed_value x \<le> printed_value y"
  unfolding printed_value_def
  by (rule to_double_mono) (simp_all add: double_3_3)

lemma printed_value_nonneg: "0 \<le> x \<Longrightarrow> 0 \<le> printed_value x"
  unfolding printed_value_def
  by (rule to_double_nonneg) (simp add: double_3_3)

lemma printed_value_finite:
  assumes "0 < t"
  shows "0 \<le> printed_value (dutyCycle h t)" and "printed_value (dutyCycle h t) \<le> 2199023255552"
proof -
  note d = duty_cycle_range[OF assms, of h]
  show "0 \<le> printed_value (dutyCycle h t)" by (rule printed_value_nonneg[OF d(1)])
  have "printed_value (dutyCycle h t) \<le> printed_value 549755813888"
    by (rule printed_value_mono[OF d])
  also have "printed_value 549755813888 \<le> 2199023255552"
    unfolding printed_value_def to_double_def by code_simp
  finally show "printed_value (dutyCycle h t) \<le> 2199023255552" .
qed

lemma duty_cycle_le_100:
  assumes "0 < t" "h \<le> t"
  shows "dutyCycle h t \<le> 100"
proof -
  have t: "1 \<le> float_of_ulong t" by (rule float_of_ulong_pos[OF assms(1)])
  have h0: "0 \<le> float_of_ulong h" by (rule float_of_ulong_nonneg)
  have q0: "0 \<le> float_of_ulong h / float_of_ulong t" using t h0 by simp
  have "float_of_ulong h / float_of_ulong t \<le> 1"
    using float_of_ulong_mono[OF assms(2)] t by (simp add: divide_le_eq)
  then have "to_float (float_of_ulong h / float_of_ulong t) \<le> to_float 1"
    by (rule to_float_mono[OF q0])
  then have q1: "to_float (float_of_ulong h / float_of_ulong t) \<le> 1" by (simp only: to_float_1)
  let ?q = "to_float (float_of_ulong h / float_of_ulong t)"
  have q: "0 \<le> ?q" by (rule to_float_nonneg[OF q0])
  have p0: "0 \<le> ?q * 100" using q by simp
  have "?q * 100 \<le> 100" using q1 by simp
  then have "to_double (?q * 100) \<le> to_double 100" by (rule to_double_mono[OF p0])
  then have "to_double (?q * 100) \<le> 100" by (simp only: to_double_100)
  then have "to_float (to_double (?q * 100)) \<le> to_float 100"
    by (rule to_float_mono[OF to_double_nonneg[OF p0]])
  then show ?thesis unfolding dutyCycle_def by (simp only: to_float_100)
qed

text \<open>Values of the computation at particular inputs.\<close>

lemma duty_cycle_full:
  assumes "0 < h"
  shows "printed_value (dutyCycle h h) = 330"
proof -
  have "float_of_ulong h \<noteq> 0" using float_of_ulong_pos[OF assms] by simp
  then have "float_of_ulong h / float_of_ulong h = 1" by simp
  then have "dutyCycle h h = 100"
    by (simp add: dutyCycle_def to_float_1 to_double_100 to_float_100)
  then show ?thesis by (simp only: printed_value_100)
qed

lemma duty_cycle_none: "printed_value (dutyCycle 0 t) = 0"
  by (simp add: dutyCycle_def float_of_ulong_0 to_float_0 to_double_0 printed_value_def)

lemma duty_cycle_three_quarters: "printed_value (dutyCycle 7500 10000) = 495 / 2"
proof -
  have h: "float_of_ulong 7500 = to_float 7500"
    by (simp add: float_of_ulong_def)
  have t: "float_of_ulong 10000 = to_float 10000"
    by (simp add: float_of_ulong_def)
  show ?thesis
    unfolding dutyCycle_def h t printed_value_def to_float_def to_double_def by code_simp
qed

lemma duty_cycle_one_third: "printed_value (dutyCycle 1 3) = 7740562450101043 / 70368744177664"
proof -
  have h: "float_of_ulong 1 = to_float 1"
    by (simp add: float_of_ulong_def)
  have t: "float_of_ulong 3 = to_float 3"
    by (simp add: float_of_ulong_def)
  show ?thesis
    unfolding dutyCycle_def h t printed_value_def to_float_def to_double_def by code_simp
qed

lemma wrapped_total: "(4294967396 :: ulong) = 100"
  by simp

lemma duty_cycle_wrapped: "printed_value (dutyCycle 4294967196 100) = 3715469692580659 / 262144"
proof -
  have h: "float_of_ulong 4294967196 = to_float 4294967196"
    by (simp add: float_of_ulong_def)
  have t: "float_of_ulong 100 = to_float 100"
    by (simp add: float_of_ulong_def)
  show ?thesis
    unfolding dutyCycle_def h t printed_value_def to_float_def to_double_def by code_simp
qed

text \<open>
  The printed number differs from the exact \<open>h / t * 100 * 3.3\<close> by a relative error of at most
  \<open>2\<^sup>-\<^sup>2\<^sup>1\<close>: seven roundings, four of them to 24 bits.
\<close>

lemma printed_value_rel_error:
  assumes "0 < h" "0 < t"
  shows "(1 - 1 / 2 ^ 21) * (of_nat (unat h) / of_nat (unat t) * 330) \<le> printed_value (dutyCycle h t)"
    and "printed_value (dutyCycle h t) \<le> (1 + 1 / 2 ^ 21) * (of_nat (unat h) / of_nat (unat t) * 330)"
proof -
  define H :: rat where "H = of_nat (unat h)"
  define T :: rat where "T = of_nat (unat t)"
  define e :: rat where "e = 1 / 2 ^ 24"
  define n :: rat where "n = 1 / 2 ^ 53"
  define c :: rat where "c = 3715469692580659 / 1125899906842624"
  define a where "a = to_float H"
  define b where "b = to_float T"
  define q where "q = to_float (a / b)"
  define d where "d = to_double (q * 100)"
  define f where "f = to_float d"
  define v where "v = to_double (f * c)"
  have v: "printed_value (dutyCycle h t) = v"
    by (simp only: printed_value_def dutyCycle_def float_of_ulong_def double_3_3
        v_def f_def d_def q_def a_def b_def H_def T_def c_def)
  have "1 \<le> unat h" "1 \<le> unat t" using assms by (simp_all add: word_less_nat_alt)
  then have H1: "1 \<le> H" and T1: "1 \<le> T"
    unfolding H_def T_def by (metis of_nat_1 of_nat_le_iff)+
  have "unat t < 2 ^ 32" using unsigned_less[of t] by simp
  then have "unat t \<le> 2 ^ 32" by simp
  then have "(of_nat (unat t) :: rat) \<le> of_nat (2 ^ 32)" by (simp only: of_nat_le_iff)
  then have T2: "T \<le> 2 ^ 32" by (simp add: T_def del: of_nat_unat)
  have "1 / 2 ^ 32 \<le> 1 / T" using T1 T2 by (simp add: field_simps)
  also have "1 / T \<le> H / T" using H1 T1 by (simp add: divide_right_mono)
  finally have x: "1 / 2 ^ 32 \<le> H / T" .
  have x0: "0 \<le> H / T" using x by (rule order_trans[rotated]) simp
  have en: "0 \<le> 1 - e" "0 < 1 - e" "0 \<le> 1 + e" "0 \<le> 1 - n" "0 \<le> 1 + n" "0 \<le> c"
    by (simp_all add: e_def n_def c_def)
  have Hn: "1 / 2 ^ 126 \<le> H" by (rule order_trans[OF _ H1]) simp
  have Tn: "1 / 2 ^ 126 \<le> T" by (rule order_trans[OF _ T1]) simp
  have a: "(1 - e) * H \<le> a" "a \<le> (1 + e) * H"
    unfolding a_def e_def by (rule to_float_rel_error[OF Hn])+
  have b: "(1 - e) * T \<le> b" "b \<le> (1 + e) * T"
    unfolding b_def e_def by (rule to_float_rel_error[OF Tn])+
  have H0: "0 \<le> H" and T0: "0 < T" using H1 T1 by simp_all
  note ab = rel_quotient[OF H0 T0 en(1) en(2) a b]
  have l0: "1 / 2 \<le> (1 - e) / (1 + e)" by (simp add: e_def)
  have abn: "1 / 2 ^ 126 \<le> a / b" by (rule rel_lower(1)[OF ab(1) l0 x])
  have q: "(1 - e) * (a / b) \<le> q" "q \<le> (1 + e) * (a / b)"
    unfolding q_def e_def by (rule to_float_rel_error[OF abn])+
  note q' = rel_chain[OF en(1) en(3) ab q]
  have c100: "(0::rat) \<le> 100" by simp
  have "100 * q \<le> q * 100" "q * 100 \<le> 100 * q" by simp_all
  note q100 = rel_chain[OF c100 c100 q' this]
  have l1: "1 / 2 \<le> 100 * ((1 - e) * ((1 - e) / (1 + e)))" by (simp add: e_def)
  have dn: "1 / 2 ^ 1022 \<le> q * 100" by (rule rel_lower(2)[OF q100(1) l1 x])
  have d: "(1 - n) * (q * 100) \<le> d" "d \<le> (1 + n) * (q * 100)"
    unfolding d_def n_def by (rule to_double_rel_error[OF dn])+
  note d' = rel_chain[OF en(4) en(5) q100 d]
  have l2: "1 / 2 \<le> (1 - n) * (100 * ((1 - e) * ((1 - e) / (1 + e))))" by (simp add: e_def n_def)
  have fn: "1 / 2 ^ 126 \<le> d" by (rule rel_lower(1)[OF d'(1) l2 x])
  have f: "(1 - e) * d \<le> f" "f \<le> (1 + e) * d"
    unfolding f_def e_def by (rule to_float_rel_error[OF fn])+
  note f' = rel_chain[OF en(1) en(3) d' f]
  have "c * f \<le> f * c" "f * c \<le> c * f" by simp_all
  note fc = rel_chain[OF en(6) en(6) f' this]
  have l3: "1 / 2 \<le> c * ((1 - e) * ((1 - n) * (100 * ((1 - e) * ((1 - e) / (1 + e))))))"
    by (simp add: e_def n_def c_def)
  have vn: "1 / 2 ^ 1022 \<le> f * c" by (rule rel_lower(2)[OF fc(1) l3 x])
  have w: "(1 - n) * (f * c) \<le> v" "v \<le> (1 + n) * (f * c)"
    unfolding v_def n_def by (rule to_double_rel_error[OF vn])+
  note v' = rel_chain[OF en(4) en(5) fc w]
  have L: "(1 - 1 / 2 ^ 21) * 330 \<le>
    (1 - n) * (c * ((1 - e) * ((1 - n) * (100 * ((1 - e) * ((1 - e) / (1 + e)))))))"
    by (simp add: e_def n_def c_def)
  have U: "(1 + n) * (c * ((1 + e) * ((1 + n) * (100 * ((1 + e) * ((1 + e) / (1 - e))))))) \<le>
    (1 + 1 / 2 ^ 21) * 330"
    by (simp add: e_def n_def c_def)
  have "(1 - 1 / 2 ^ 21) * (H / T * 330) = (1 - 1 / 2 ^ 21) * 330 * (H / T)" by simp
  also have "\<dots> \<le> (1 - n) * (c * ((1 - e) * ((1 - n) * (100 * ((1 - e) * ((1 - e) / (1 + e))))))) * (H / T)"
    by (rule mult_right_mono[OF L x0])
  also have "\<dots> \<le> v" using v'(1) by (simp only: mult.assoc)
  finally have lower: "(1 - 1 / 2 ^ 21) * (H / T * 330) \<le> v" .
  have "v \<le> (1 + n) * (c * ((1 + e) * ((1 + n) * (100 * ((1 + e) * ((1 + e) / (1 - e))))))) * (H / T)"
    using v'(2) by (simp only: mult.assoc)
  also have "\<dots> \<le> (1 + 1 / 2 ^ 21) * 330 * (H / T)"
    by (rule mult_right_mono[OF U x0])
  also have "\<dots> = (1 + 1 / 2 ^ 21) * (H / T * 330)" by simp
  finally have upper: "v \<le> (1 + 1 / 2 ^ 21) * (H / T * 330)" .
  show "(1 - 1 / 2 ^ 21) * (of_nat (unat h) / of_nat (unat t) * 330) \<le> printed_value (dutyCycle h t)"
    using lower unfolding v H_def T_def .
  show "printed_value (dutyCycle h t) \<le> (1 + 1 / 2 ^ 21) * (of_nat (unat h) / of_nat (unat t) * 330)"
    using upper unfolding v H_def T_def .
qed

lemma printed_value_close:
  assumes "0 < t"
  shows "\<bar>printed_value (dutyCycle h t) - of_nat (unat h) / of_nat (unat t) * 100 * (33 / 10)\<bar>
         \<le> of_nat (unat h) / of_nat (unat t) * 100 * (33 / 10) / 2 ^ 21"
proof (cases "h = 0")
  case True
  then show ?thesis by (simp add: duty_cycle_none)
next
  case False
  then have h: "0 < h" by (simp add: word_greater_zero_iff)
  have e: "of_nat (unat h) / of_nat (unat t) * 100 * (33 / 10) =
           (of_nat (unat h) / of_nat (unat t) * 330 :: rat)" by simp
  from printed_value_rel_error[OF h assms] show ?thesis
    unfolding e by (simp add: abs_le_iff algebra_simps del: of_nat_unat)
qed

section \<open>Properties of the loop and of runs\<close>

lemma loop_fired:
  assumes "250 \<le> m1 - lastPrintTime s"
  shows "loop m1 m2 s =
    (s\<lparr>lastPrintTime := m2, highTime := 0, lowTime := 0\<rparr>,
     if 0 < highTime s + lowTime s
     then Some (printed_value (dutyCycle (highTime s) (highTime s + lowTime s))) else None)"
  using assms by (simp add: loop_def Let_def)

lemma loop_idle:
  assumes "m1 - lastPrintTime s < 250"
  shows "loop m1 m2 s = (s, None)"
  using assms by (simp add: loop_def not_le[symmetric])

lemma reporter_spec_fired:
  assumes "250 \<le> now_ms - lastPrintTime s"
  shows "periodic_reporter_spec now_ms s =
    (s\<lparr>lastPrintTime := now_ms, highTime := 0, lowTime := 0\<rparr>,
     if 0 < highTime s + lowTime s
     then Some (printed_value (dutyCycle (highTime s) (highTime s + lowTime s))) else None)"
proof -
  have "\<not> now_ms - lastPrintTime s < 250" using assms by simp
  then show ?thesis
    by (simp add: periodic_reporter_spec_def Let_def word_greater_zero_iff
        dutyCycle_def printed_value_def)
qed

lemma reporter_spec_idle:
  assumes "now_ms - lastPrintTime s < 250"
  shows "periodic_reporter_spec now_ms s = (s, None)"
  using assms by (simp add: periodic_reporter_spec_def)

lemma loop_refines_reporter_spec:
  "loop m1 m2 s =
     (if 250 \<le> m1 - lastPrintTime s
      then (fst (periodic_reporter_spec m1 s)\<lparr>lastPrintTime := m2\<rparr>,
            snd (periodic_reporter_spec m1 s))
      else periodic_reporter_spec m1 s)"
proof (cases "250 \<le> m1 - lastPrintTime s")
  case True
  then show ?thesis by (simp add: loop_fired reporter_spec_fired)
next
  case False
  then have "m1 - lastPrintTime s < 250" by simp
  then show ?thesis by (simp add: loop_idle reporter_spec_idle)
qed

lemma sum_filter_split:
  "sum_list (map fst (filter snd ds)) + sum_list (map fst (filter (\<lambda>x. \<not> snd x) ds)) =
   sum_list (map fst (ds :: (nat \<times> bool) list))"
  by (induction ds) auto

lemma final_transitions:
  "lastTransitionTime s = of_nat t0 \<Longrightarrow>
   final s (transitions t0 ds) =
     s\<lparr>highTime := highTime s + of_nat (sum_list (map fst (filter (\<lambda>x. \<not> snd x) ds))),
       lowTime := lowTime s + of_nat (sum_list (map fst (filter snd ds))),
       lastTransitionTime := of_nat (t0 + sum_list (map fst ds))\<rparr>"
proof (induction ds arbitrary: s t0)
  case Nil
  then show ?case by simp
next
  case (Cons a ds)
  obtain d pin where a: "a = (d, pin)" by (cases a)
  let ?s = "handleInterrupt (of_nat (t0 + d)) pin s"
  have t: "lastTransitionTime ?s = of_nat (t0 + d)"
    by (simp add: handleInterrupt_def Let_def)
  have "final s (transitions t0 (a # ds)) = final ?s (transitions (t0 + d) ds)"
    by (simp add: a)
  also note Cons.IH[OF t]
  also have "?s\<lparr>highTime := highTime ?s + of_nat (sum_list (map fst (filter (\<lambda>x. \<not> snd x) ds))),
       lowTime := lowTime ?s + of_nat (sum_list (map fst (filter snd ds))),
       lastTransitionTime := of_nat (t0 + d + sum_list (map fst ds))\<rparr> =
     s\<lparr>highTime := highTime s + of_nat (sum_list (map fst (filter (\<lambda>x. \<not> snd x) (a # ds)))),
       lowTime := lowTime s + of_nat (sum_list (map fst (filter snd (a # ds)))),
       lastTransitionTime := of_nat (t0 + sum_list (map fst (a # ds)))\<rparr>"
    using Cons.prems by (cases pin) (simp_all add: a handleInterrupt_def Let_def add.assoc)
  finally show ?case .
qed

lemma quiet_accumulated:
  "quiet s es \<Longrightarrow>
   highTime (final s es) + lowTime (final s es) =
     highTime s + lowTime s + (lastTransitionTime (final s es) - lastTransitionTime s)"
proof (induction es arbitrary: s)
  case Nil
  then show ?case by simp
next
  case (Cons e es)
  show ?case
  proof (cases e)
    case (Edge t pin)
    then have "quiet (handleInterrupt (of_nat t) pin s) es" using Cons.prems by simp
    from Cons.IH[OF this] show ?thesis
      unfolding Edge by (simp add: handleInterrupt_def Let_def split: if_splits)
  next
    case (Poll t1 t2)
    then have idle: "of_nat t1 - lastPrintTime s < 250" using Cons.prems by simp
    have q: "quiet s es" using Cons.prems unfolding Poll by (simp add: loop_idle[OF idle])
    show ?thesis unfolding Poll using Cons.IH[OF q] by (simp add: loop_idle[OF idle])
  qed
qed

lemma fired_gap:
  assumes "T \<le> t" and "250 \<le> (of_nat t :: ulong) - of_nat T"
  shows "T + 250 \<le> t"
proof -
  have "(of_nat t :: ulong) - of_nat T = of_nat (t - T)" using assms(1) by simp
  then have "250 \<le> unat (of_nat (t - T) :: ulong)" using assms(2) by (simp add: word_le_nat_alt)
  also have "\<dots> \<le> t - T" by (simp add: unat_of_nat)
  finally show ?thesis using assms(1) by simp
qed

lemma chrono_weaken: "chrono T es \<Longrightarrow> T' \<le> T \<Longrightarrow> chrono T' es"
  by (induction T es rule: chrono.induct) auto

lemma lines_after:
  "chrono T es \<Longrightarrow> lastPrintTime s = of_nat T \<Longrightarrow>
   (\<forall>a \<in> set (map fst (lines s es)). T + 250 \<le> a) \<and>
   sorted_wrt (\<lambda>a b. a + 250 \<le> b) (map fst (lines s es))"
proof (induction es arbitrary: s T)
  case Nil
  then show ?case by simp
next
  case (Cons e es)
  show ?case
  proof (cases e)
    case (Edge t pin)
    let ?s = "handleInterrupt (of_nat t) pin s"
    have "chrono T es" using Cons.prems(1) Edge by simp
    moreover have "lastPrintTime ?s = of_nat T"
      using Cons.prems(2) by (simp add: handleInterrupt_def Let_def)
    ultimately show ?thesis using Cons.IH[of T ?s] by (simp add: Edge)
  next
    case (Poll t1 t2)
    have c: "T \<le> t1" "t1 \<le> t2" "chrono t2 es" using Cons.prems(1) Poll by simp_all
    show ?thesis
    proof (cases "250 \<le> (of_nat t1 :: ulong) - lastPrintTime s")
      case True
      then have gap: "T + 250 \<le> t1" using fired_gap[OF c(1)] Cons.prems(2) by simp
      let ?s = "fst (loop (of_nat t1) (of_nat t2) s)"
      have "lastPrintTime ?s = of_nat t2" by (simp add: loop_fired[OF True])
      from Cons.IH[OF c(3) this]
      have ih: "\<forall>a \<in> set (map fst (lines ?s es)). t2 + 250 \<le> a"
        "sorted_wrt (\<lambda>a b. a + 250 \<le> b) (map fst (lines ?s es))" by auto
      from ih(1) c(2) gap have "\<forall>a \<in> set (map fst (lines ?s es)). t1 + 250 \<le> a \<and> T + 250 \<le> a"
        by fastforce
      then show ?thesis using ih(2) gap
        by (auto simp: Poll split: option.splits)
    next
      case False
      then have idle: "(of_nat t1 :: ulong) - lastPrintTime s < 250" by simp
      have "chrono T es" using c chrono_weaken[of t2 es T] by simp
      from Cons.IH[OF this Cons.prems(2)] show ?thesis
        by (simp add: Poll loop_idle[OF idle])
    qed
  qed
qed

section \<open>The claims\<close>

text \<open>
  C1 (accumulation correctness). Start with both accumulators at zero and let \<open>N\<close> edges
  follow, the \<open>k\<close>-th one \<open>d\<^sub>k\<close> microseconds after the previous one (the first one
  \<open>d\<^sub>1\<close> after the time recorded in \<^verbatim>\<open>lastTransitionTime\<close>). After the \<open>N\<close> calls of
  \<^verbatim>\<open>handleInterrupt\<close>, \<^verbatim>\<open>highTime + lowTime\<close> is the sum of all delays modulo \<open>2\<^sup>3\<^sup>2\<close>,
  \<^verbatim>\<open>lowTime\<close> is the sum of the delays that ended with the pin reading HIGH and
  \<^verbatim>\<open>highTime\<close> the sum of those that ended with the pin reading LOW, both as 32-bit values.
\<close>

theorem accumulation_correct:
  assumes "highTime s = 0" and "lowTime s = 0" and "lastTransitionTime s = of_nat t0"
  shows "unat (highTime (final s (transitions t0 ds)) + lowTime (final s (transitions t0 ds))) =
           sum_list (map fst ds) mod 2 ^ 32 \<and>
         lowTime (final s (transitions t0 ds)) = of_nat (sum_list (map fst (filter snd ds))) \<and>
         highTime (final s (transitions t0 ds)) =
           of_nat (sum_list (map fst (filter (\<lambda>x. \<not> snd x) ds)))"
proof -
  have "(of_nat (sum_list (map fst (filter (\<lambda>x. \<not> snd x) ds))) :: ulong) +
        of_nat (sum_list (map fst (filter snd ds))) = of_nat (sum_list (map fst ds))"
    by (simp only: of_nat_add[symmetric] add.commute[of "sum_list (map fst (filter (\<lambda>x. \<not> snd x) ds))"] sum_filter_split)
  then show ?thesis
    unfolding final_transitions[OF assms(3)] using assms(1,2)
    by (simp add: unat_of_nat)
qed

text \<open>
  An instance of C1: delays of 300, 700 and \<open>2\<^sup>3\<^sup>2\<close> microseconds, the pin reading HIGH, LOW,
  HIGH. The third delay is a whole turn of the 32-bit clock and adds nothing.
\<close>

theorem accumulation_correct_witness:
  "unat (highTime (final initial_state (transitions 0 [(300, True), (700, False), (4294967296, True)])) +
         lowTime (final initial_state (transitions 0 [(300, True), (700, False), (4294967296, True)]))) = 1000 \<and>
   lowTime (final initial_state (transitions 0 [(300, True), (700, False), (4294967296, True)])) = 300 \<and>
   highTime (final initial_state (transitions 0 [(300, True), (700, False), (4294967296, True)])) = 700"
  using accumulation_correct[of initial_state 0 "[(300, True), (700, False), (4294967296, True)]"]
  by (simp add: initial_state_def)

text \<open>
  C2 says that between two resets \<^verbatim>\<open>highTime + lowTime\<close> is the time elapsed since the last
  report. The run below refutes it: an edge at 100 \<open>\<mu>s\<close>, a report at 250 ms, an edge at
  250100 \<open>\<mu>s\<close>. Only 100 \<open>\<mu>s\<close> have passed since the report, yet the accumulators hold
  250000 \<open>\<mu>s\<close>: \<^verbatim>\<open>lastTransitionTime\<close> is not touched by the report, so the first edge after
  a report brings in the whole time since the edge before it.
\<close>

theorem elapsed_since_report_counterexample:
  "lastPrintTime (final initial_state [Edge 100 True, Poll 250 250, Edge 250100 False]) = 250 \<and>
   unat (highTime (final initial_state [Edge 100 True, Poll 250 250, Edge 250100 False]) +
         lowTime (final initial_state [Edge 100 True, Poll 250 250, Edge 250100 False])) = 250000 \<and>
   unat (highTime (final initial_state [Edge 100 True, Poll 250 250, Edge 250100 False]) +
         lowTime (final initial_state [Edge 100 True, Poll 250 250, Edge 250100 False])) \<noteq>
     250100 - 1000 * unat (lastPrintTime (final initial_state [Edge 100 True, Poll 250 250, Edge 250100 False]))"
  by (simp add: loop_def initial_state_def handleInterrupt_def)

text \<open>
  C2 as the code has it. After an iteration of the loop that reached the cadence and reset
  the accumulators, and for every run of edges and loop iterations in which the cadence is
  not reached again, \<^verbatim>\<open>highTime + lowTime\<close> equals, modulo \<open>2\<^sup>3\<^sup>2\<close>, the clock reading at the
  most recent edge minus the clock reading at the last edge before the reset. The same
  holds from program start, where the reading before is zero.
\<close>

theorem accumulators_span_edges:
  "(250 \<le> m1 - lastPrintTime s0 \<and> quiet (fst (loop m1 m2 s0)) es \<longrightarrow>
      highTime (final (fst (loop m1 m2 s0)) es) + lowTime (final (fst (loop m1 m2 s0)) es) =
      lastTransitionTime (final (fst (loop m1 m2 s0)) es) - lastTransitionTime s0) \<and>
   (quiet initial_state es \<longrightarrow>
      highTime (final initial_state es) + lowTime (final initial_state es) =
      lastTransitionTime (final initial_state es))"
proof (intro conjI impI)
  assume "250 \<le> m1 - lastPrintTime s0 \<and> quiet (fst (loop m1 m2 s0)) es"
  then have f: "250 \<le> m1 - lastPrintTime s0" and q: "quiet (fst (loop m1 m2 s0)) es"
    by simp_all
  from quiet_accumulated[OF q]
  show "highTime (final (fst (loop m1 m2 s0)) es) + lowTime (final (fst (loop m1 m2 s0)) es) =
      lastTransitionTime (final (fst (loop m1 m2 s0)) es) - lastTransitionTime s0"
    by (simp add: loop_fired[OF f])
next
  assume "quiet initial_state es"
  from quiet_accumulated[OF this]
  show "highTime (final initial_state es) + lowTime (final initial_state es) =
      lastTransitionTime (final initial_state es)"
    by (simp add: initial_state_def)
qed

text \<open>
  An instance of C2: a reset at 250 ms, then edges at 250100 and 250400 \<open>\<mu>s\<close>; and the same
  edges from the initial state.
\<close>

theorem accumulators_span_edges_witness:
  "250 \<le> (250::ulong) - lastPrintTime initial_state \<and>
   quiet (fst (loop 250 250 initial_state)) [Edge 250100 False, Poll 300 300, Edge 250400 True] \<and>
   highTime (final (fst (loop 250 250 initial_state)) [Edge 250100 False, Poll 300 300, Edge 250400 True]) +
   lowTime (final (fst (loop 250 250 initial_state)) [Edge 250100 False, Poll 300 300, Edge 250400 True]) =
   250400 - lastTransitionTime initial_state \<and>
   quiet initial_state [Edge 250100 False, Poll 200 200, Edge 250400 True] \<and>
   highTime (final initial_state [Edge 250100 False, Poll 200 200, Edge 250400 True]) +
   lowTime (final initial_state [Edge 250100 False, Poll 200 200, Edge 250400 True]) = 250400"
proof -
  have f: "250 \<le> (250::ulong) - lastPrintTime initial_state"
    by (simp add: initial_state_def)
  have q: "quiet (fst (loop 250 250 initial_state)) [Edge 250100 False, Poll 300 300, Edge 250400 True]"
    by (simp add: loop_def initial_state_def handleInterrupt_def)
  have r: "quiet initial_state [Edge 250100 False, Poll 200 200, Edge 250400 True]"
    by (simp add: loop_def initial_state_def handleInterrupt_def)
  show ?thesis
    using f q r
      accumulators_span_edges[of 250 initial_state 250 "[Edge 250100 False, Poll 300 300, Edge 250400 True]"]
      accumulators_span_edges[of 250 initial_state 250 "[Edge 250100 False, Poll 200 200, Edge 250400 True]"]
    by (simp add: loop_def initial_state_def handleInterrupt_def)
qed

text \<open>
  C3 says that every printed number is \<open>highTime / total * 100 * 3.3\<close> in exact arithmetic.
  With \<^verbatim>\<open>highTime = 1\<close> and \<^verbatim>\<open>lowTime = 2\<close> the exact number is 110; the program prints the
  double \<open>7740562450101043 / 2\<^sup>4\<^sup>6\<close>, a little more than 110.000008, because the quotient
  \<open>1 / 3\<close> is rounded to a float.
\<close>

theorem exact_scaling_counterexample:
  "final initial_state [Edge 1 False, Edge 3 True] =
     \<lparr>highTime = 1, lowTime = 2, lastTransitionTime = 3, lastPrintTime = 0\<rparr> \<and>
   lines initial_state [Edge 1 False, Edge 3 True, Poll 250 250] =
     [(250, 7740562450101043 / 70368744177664)] \<and>
   (7740562450101043 / 70368744177664 :: rat) \<noteq> 1 / (1 + 2) * 100 * (33 / 10)"
  by (simp add: initial_state_def handleInterrupt_def loop_def duty_cycle_one_third)

text \<open>
  C3 as the code has it. When a report fires, \<^verbatim>\<open>highTime = 7500\<close> and \<^verbatim>\<open>lowTime = 2500\<close> print
  exactly 247.5; whenever \<^verbatim>\<open>lowTime\<close> is zero and \<^verbatim>\<open>highTime\<close> is not (so for 10000 and 0)
  the number printed is exactly 330; whenever \<^verbatim>\<open>highTime\<close> is zero and \<^verbatim>\<open>lowTime\<close> is not
  (so for 0 and 10000) it is exactly 0. In general the number printed equals
  \<open>highTime / totalTime * 100 * 3.3\<close>, with \<^verbatim>\<open>totalTime\<close> the 32-bit sum, up to a relative error
  of \<open>2\<^sup>-\<^sup>2\<^sup>1\<close>.
\<close>

theorem duty_cycle_scaling:
  assumes "250 \<le> m1 - lastPrintTime s"
  shows "(highTime s = 7500 \<and> lowTime s = 2500 \<longrightarrow> snd (loop m1 m2 s) = Some (495 / 2)) \<and>
         (0 < highTime s \<and> lowTime s = 0 \<longrightarrow> snd (loop m1 m2 s) = Some 330) \<and>
         (highTime s = 0 \<and> 0 < lowTime s \<longrightarrow> snd (loop m1 m2 s) = Some 0) \<and>
         (snd (loop m1 m2 s) = Some v \<longrightarrow>
            \<bar>v - of_nat (unat (highTime s)) / of_nat (unat (highTime s + lowTime s)) * 100 * (33 / 10)\<bar>
            \<le> of_nat (unat (highTime s)) / of_nat (unat (highTime s + lowTime s)) * 100 * (33 / 10) / 2 ^ 21)"
  using printed_value_close[of "highTime s + lowTime s" "highTime s"]
  by (auto simp: loop_fired[OF assms] duty_cycle_three_quarters duty_cycle_full duty_cycle_none
      simp del: of_nat_unat)

text \<open>The three inputs named by C3, and the input 1 and 2 of the counterexample.\<close>

theorem duty_cycle_scaling_witness:
  "250 \<le> (250::ulong) - lastPrintTime (initial_state\<lparr>highTime := 7500, lowTime := 2500\<rparr>) \<and>
   snd (loop 250 250 (initial_state\<lparr>highTime := 7500, lowTime := 2500\<rparr>)) = Some (495 / 2) \<and>
   snd (loop 250 250 (initial_state\<lparr>highTime := 10000, lowTime := 0\<rparr>)) = Some 330 \<and>
   snd (loop 250 250 (initial_state\<lparr>highTime := 0, lowTime := 10000\<rparr>)) = Some 0 \<and>
   snd (loop 250 250 (initial_state\<lparr>highTime := 1, lowTime := 2\<rparr>)) =
     Some (7740562450101043 / 70368744177664) \<and>
   \<bar>7740562450101043 / 70368744177664 - 110\<bar> \<le> (110 / 2 ^ 21 :: rat)"
proof -
  have "snd (loop 250 250 (initial_state\<lparr>highTime := 1, lowTime := 2\<rparr>)) =
     Some (7740562450101043 / 70368744177664)"
    by (simp add: initial_state_def loop_def duty_cycle_one_third)
  then show ?thesis
  using duty_cycle_scaling[of 250 "initial_state\<lparr>highTime := 7500, lowTime := 2500\<rparr>" 250]
    duty_cycle_scaling[of 250 "initial_state\<lparr>highTime := 10000, lowTime := 0\<rparr>" 250]
    duty_cycle_scaling[of 250 "initial_state\<lparr>highTime := 0, lowTime := 10000\<rparr>" 250]
    duty_cycle_scaling[of 250 "initial_state\<lparr>highTime := 1, lowTime := 2\<rparr>" 250
       "7740562450101043 / 70368744177664"]
  by (simp add: initial_state_def)
qed



text \<open>
  C5 (reset after report). After an iteration of the loop that reached the cadence both
  accumulators are zero, whether or not a line was printed.
\<close>

theorem reset_after_report:
  assumes "250 \<le> m1 - lastPrintTime s"
  shows "highTime (fst (loop m1 m2 s)) = 0 \<and> lowTime (fst (loop m1 m2 s)) = 0"
  by (simp add: loop_fired[OF assms])

text \<open>Two instances of C5, one without a printed line and one with.\<close>

theorem reset_after_report_witness:
  "250 \<le> (250::ulong) - lastPrintTime initial_state \<and>
   snd (loop 250 250 initial_state) = None \<and>
   highTime (fst (loop 250 250 initial_state)) = 0 \<and>
   lowTime (fst (loop 250 250 initial_state)) = 0 \<and>
   250 \<le> (250::ulong) - lastPrintTime (initial_state\<lparr>highTime := 7500, lowTime := 2500\<rparr>) \<and>
   snd (loop 250 250 (initial_state\<lparr>highTime := 7500, lowTime := 2500\<rparr>)) \<noteq> None \<and>
   highTime (fst (loop 250 250 (initial_state\<lparr>highTime := 7500, lowTime := 2500\<rparr>))) = 0 \<and>
   lowTime (fst (loop 250 250 (initial_state\<lparr>highTime := 7500, lowTime := 2500\<rparr>))) = 0"
  using reset_after_report[of 250 initial_state 250]
    reset_after_report[of 250 "initial_state\<lparr>highTime := 7500, lowTime := 2500\<rparr>" 250]
  by (simp add: initial_state_def loop_def)

text \<open>
  C6 (cadence gating). An iteration of the loop with \<^verbatim>\<open>millis() - lastPrintTime < 250\<close>
  changes nothing and prints nothing. And in every run in which the millisecond clock does
  not run backwards, any two printed lines come from iterations at least 250 ms apart: two
  iterations less than 250 ms apart print at most one line between them.
\<close>

theorem cadence_gating:
  "(m1 - lastPrintTime s < 250 \<longrightarrow> loop m1 m2 s = (s, None)) \<and>
   (chrono T es \<and> lastPrintTime s = of_nat T \<longrightarrow>
      sorted_wrt (\<lambda>a b. a + 250 \<le> b) (map fst (lines s es)))"
  using loop_idle[of m1 s m2] lines_after[of T es s] by blast

text \<open>
  An instance of C6: an idle iteration at 249 ms, and a run with loop iterations at 250, 500,
  501 and 750 ms of which those at 250 and 501 print.
\<close>

theorem cadence_gating_witness:
  "(249::ulong) - lastPrintTime initial_state < 250 \<and>
   loop 249 249 initial_state = (initial_state, None) \<and>
   chrono 0 [Edge 100 True, Poll 250 251, Edge 250100 False, Poll 500 500, Edge 250400 True,
             Poll 501 501, Poll 750 750] \<and>
   lastPrintTime initial_state = of_nat 0 \<and>
   map fst (lines initial_state [Edge 100 True, Poll 250 251, Edge 250100 False, Poll 500 500,
             Edge 250400 True, Poll 501 501, Poll 750 750]) = [250, 501] \<and>
   sorted_wrt (\<lambda>a b. a + 250 \<le> b) (map fst (lines initial_state
            [Edge 100 True, Poll 250 251, Edge 250100 False, Poll 500 500, Edge 250400 True,
             Poll 501 501, Poll 750 750]))"
  using cadence_gating[of 249 initial_state 249 0 "[Edge 100 True, Poll 250 251, Edge 250100 False, Poll 500 500, Edge 250400 True,
             Poll 501 501, Poll 750 750]"]
  by (simp add: initial_state_def loop_def handleInterrupt_def)

text \<open>
  C7 says that \<^verbatim>\<open>lastPrintTime\<close> receives the reading that was compared with the cadence, also
  when the clock advances between reads. The source reads \<^verbatim>\<open>millis()\<close> a second time for the
  assignment: with 250 read in the condition and 251 in the assignment, \<^verbatim>\<open>lastPrintTime\<close>
  becomes 251.
\<close>

theorem last_print_time_counterexample:
  "250 \<le> (250::ulong) - lastPrintTime initial_state \<and>
   lastPrintTime (fst (loop 250 251 initial_state)) \<noteq> 250"
  by (simp add: initial_state_def loop_def)

text \<open>
  C7 as the code has it. In an iteration of the loop that reached the cadence,
  \<^verbatim>\<open>lastPrintTime\<close> is set to the second reading of \<^verbatim>\<open>millis()\<close>, taken after the comparison;
  it is the compared reading exactly when the clock showed the same value at both reads.
\<close>

theorem last_print_time_second_reading:
  assumes "250 \<le> m1 - lastPrintTime s"
  shows "lastPrintTime (fst (loop m1 m2 s)) = m2"
  by (simp add: loop_fired[OF assms])

text \<open>An instance of C7: readings 250 and 251.\<close>

theorem last_print_time_second_reading_witness:
  "250 \<le> (250::ulong) - lastPrintTime initial_state \<and>
   lastPrintTime (fst (loop 250 251 initial_state)) = 251"
  using last_print_time_second_reading[of 250 initial_state 251]
  by (simp add: initial_state_def)

text \<open>
  C8 says that the reporter of the specification and the loop of the code produce the same
  printed number and the same final state. The final states differ in \<^verbatim>\<open>lastPrintTime\<close>
  as soon as the clock moves between the two reads of the code: with 250 read in the
  condition and 251 in the assignment the code stores 251, the specification 250. With
  4294967295 and 0, a wrap of the clock between the reads, the code differs from the
  specification at either reading.
\<close>

theorem snapshot_final_state_counterexample:
  "250 \<le> (250::ulong) - lastPrintTime initial_state \<and>
   lastPrintTime (fst (loop 250 251 initial_state)) = 251 \<and>
   lastPrintTime (fst (periodic_reporter_spec 250 initial_state)) = 250 \<and>
   loop 250 251 initial_state \<noteq> periodic_reporter_spec 250 initial_state \<and>
   loop 4294967295 0 (initial_state\<lparr>highTime := 7500, lowTime := 2500\<rparr>) \<noteq>
     periodic_reporter_spec 4294967295 (initial_state\<lparr>highTime := 7500, lowTime := 2500\<rparr>) \<and>
   loop 4294967295 0 (initial_state\<lparr>highTime := 7500, lowTime := 2500\<rparr>) \<noteq>
     periodic_reporter_spec 0 (initial_state\<lparr>highTime := 7500, lowTime := 2500\<rparr>)"
proof -
  have a: "250 \<le> (250::ulong) - lastPrintTime initial_state"
    by (simp add: initial_state_def)
  have b: "lastPrintTime (fst (loop 250 251 initial_state)) = 251"
    by (simp add: loop_fired[OF a])
  have c: "lastPrintTime (fst (periodic_reporter_spec 250 initial_state)) = 250"
    by (simp add: reporter_spec_fired[OF a])
  have d: "loop 250 251 initial_state \<noteq> periodic_reporter_spec 250 initial_state"
    using b c by auto
  let ?s = "initial_state\<lparr>highTime := 7500, lowTime := 2500\<rparr>"
  have f: "250 \<le> (4294967295::ulong) - lastPrintTime ?s"
    by (simp add: initial_state_def)
  have "lastPrintTime (fst (loop 4294967295 0 ?s)) = 0"
    by (simp add: loop_fired[OF f])
  moreover have "lastPrintTime (fst (periodic_reporter_spec 4294967295 ?s)) = 4294967295"
    by (simp add: reporter_spec_fired[OF f])
  ultimately have e: "loop 4294967295 0 ?s \<noteq> periodic_reporter_spec 4294967295 ?s"
    by auto
  have "(0::ulong) - lastPrintTime ?s < 250"
    by (simp add: initial_state_def)
  then have "snd (periodic_reporter_spec 0 ?s) = None"
    by (simp add: reporter_spec_idle)
  moreover have "snd (loop 4294967295 0 ?s) \<noteq> None"
    by (simp add: loop_fired[OF f])
  ultimately have g: "loop 4294967295 0 ?s \<noteq> periodic_reporter_spec 0 ?s"
    by auto
  show ?thesis using a b c d e g by simp
qed

text \<open>
  C8 as the code has it. Without preemption, the reporter of the specification, which
  copies both accumulators into locals first, and the loop of the code, which keeps only
  \<^verbatim>\<open>totalTime\<close> in a local and reads \<^verbatim>\<open>highTime\<close> again, print the same number and leave the
  same \<^verbatim>\<open>highTime\<close>, \<^verbatim>\<open>lowTime\<close> and \<^verbatim>\<open>lastTransitionTime\<close>, whatever the two clock readings
  of the code. The final states differ at most in \<^verbatim>\<open>lastPrintTime\<close>: when the cadence is
  reached the code's state is the specification's with \<^verbatim>\<open>lastPrintTime\<close> set to the second
  reading, otherwise the states are equal. When both reads of the code return the one
  reading of the specification, the whole results are equal.
\<close>

theorem snapshot_equivalence:
  "snd (loop m1 m2 s) = snd (periodic_reporter_spec m1 s) \<and>
   fst (loop m1 m2 s) =
     (if 250 \<le> m1 - lastPrintTime s
      then fst (periodic_reporter_spec m1 s)\<lparr>lastPrintTime := m2\<rparr>
      else fst (periodic_reporter_spec m1 s)) \<and>
   highTime (fst (loop m1 m2 s)) = highTime (fst (periodic_reporter_spec m1 s)) \<and>
   lowTime (fst (loop m1 m2 s)) = lowTime (fst (periodic_reporter_spec m1 s)) \<and>
   lastTransitionTime (fst (loop m1 m2 s)) = lastTransitionTime (fst (periodic_reporter_spec m1 s)) \<and>
   loop now_ms now_ms s = periodic_reporter_spec now_ms s"
proof -
  have "loop now_ms now_ms s = periodic_reporter_spec now_ms s"
  proof (cases "250 \<le> now_ms - lastPrintTime s")
    case True
    then show ?thesis by (simp add: loop_fired reporter_spec_fired)
  next
    case False
    then have "now_ms - lastPrintTime s < 250" by simp
    then show ?thesis by (simp add: loop_idle reporter_spec_idle)
  qed
  then show ?thesis by (simp add: loop_refines_reporter_spec[of m1 m2 s])
qed

text \<open>
  Instances of C8: a report from 7500 and 2500 with readings 250 and 251, the same report
  with both readings 250, and an idle iteration.
\<close>

theorem snapshot_equivalence_witness:
  "250 \<le> (250::ulong) - lastPrintTime (initial_state\<lparr>highTime := 7500, lowTime := 2500\<rparr>) \<and>
   snd (periodic_reporter_spec 250 (initial_state\<lparr>highTime := 7500, lowTime := 2500\<rparr>)) =
     Some (495 / 2) \<and>
   snd (loop 250 251 (initial_state\<lparr>highTime := 7500, lowTime := 2500\<rparr>)) = Some (495 / 2) \<and>
   fst (loop 250 251 (initial_state\<lparr>highTime := 7500, lowTime := 2500\<rparr>)) =
     fst (periodic_reporter_spec 250 (initial_state\<lparr>highTime := 7500, lowTime := 2500\<rparr>))
       \<lparr>lastPrintTime := 251\<rparr> \<and>
   loop 250 250 (initial_state\<lparr>highTime := 7500, lowTime := 2500\<rparr>) =
     periodic_reporter_spec 250 (initial_state\<lparr>highTime := 7500, lowTime := 2500\<rparr>) \<and>
   \<not> 250 \<le> (100::ulong) - lastPrintTime initial_state \<and>
   fst (loop 100 101 initial_state) = fst (periodic_reporter_spec 100 initial_state) \<and>
   loop 100 100 initial_state = periodic_reporter_spec 100 initial_state \<and>
   periodic_reporter_spec 100 initial_state = (initial_state, None)"
proof -
  let ?s = "initial_state\<lparr>highTime := 7500, lowTime := 2500\<rparr>"
  have f: "250 \<le> (250::ulong) - lastPrintTime ?s"
    by (simp add: initial_state_def)
  have v: "snd (periodic_reporter_spec 250 ?s) = Some (495 / 2)"
    unfolding reporter_spec_fired[OF f]
    by (simp add: initial_state_def duty_cycle_three_quarters)
  have i: "(100::ulong) - lastPrintTime initial_state < 250"
    by (simp add: initial_state_def)
  have n: "\<not> 250 \<le> (100::ulong) - lastPrintTime initial_state"
    using i by simp
  show ?thesis
    using f v n reporter_spec_idle[OF i]
      snapshot_equivalence[of 250 251 ?s 250]
      snapshot_equivalence[of 100 101 initial_state 100]
    by simp
qed

text \<open>
  C9 (frame conditions). \<^verbatim>\<open>handleInterrupt\<close> adds the time since the last transition to
  \<^verbatim>\<open>lowTime\<close> and leaves \<^verbatim>\<open>highTime\<close> alone when the pin reads HIGH, adds it to \<^verbatim>\<open>highTime\<close>
  and leaves \<^verbatim>\<open>lowTime\<close> alone when the pin reads LOW; it always sets \<^verbatim>\<open>lastTransitionTime\<close> to
  the current reading of the clock and never changes \<^verbatim>\<open>lastPrintTime\<close>. The loop never
  changes \<^verbatim>\<open>lastTransitionTime\<close>.
\<close>

theorem frame_conditions:
  "(if pin
    then lowTime (handleInterrupt t pin s) = lowTime s + (t - lastTransitionTime s) \<and>
         highTime (handleInterrupt t pin s) = highTime s
    else highTime (handleInterrupt t pin s) = highTime s + (t - lastTransitionTime s) \<and>
         lowTime (handleInterrupt t pin s) = lowTime s) \<and>
   lastTransitionTime (handleInterrupt t pin s) = t \<and>
   lastPrintTime (handleInterrupt t pin s) = lastPrintTime s \<and>
   lastTransitionTime (fst (loop m1 m2 s)) = lastTransitionTime s"
  by (simp add: handleInterrupt_def loop_def Let_def)

text \<open>Instances of C9: an edge at 500 \<open>\<mu>s\<close> with either pin reading, then a report.\<close>

theorem frame_conditions_witness:
  "lowTime (handleInterrupt 500 True initial_state) = 500 \<and>
   highTime (handleInterrupt 500 True initial_state) = 0 \<and>
   highTime (handleInterrupt 500 False initial_state) = 500 \<and>
   lowTime (handleInterrupt 500 False initial_state) = 0 \<and>
   lastTransitionTime (handleInterrupt 500 True initial_state) = 500 \<and>
   lastPrintTime (handleInterrupt 500 True initial_state) = 0 \<and>
   lastTransitionTime (fst (loop 250 250 (handleInterrupt 500 True initial_state))) = 500"
  using frame_conditions[of True 500 initial_state 250 250]
    frame_conditions[of False 500 initial_state 250 250]
    frame_conditions[of True 500 "handleInterrupt 500 True initial_state" 250 250]
  by (simp add: initial_state_def)

text \<open>
  C10 says that every printed number lies between 0 and 330. The 32-bit sum can wrap: after
  the signal has been high for 4294967196 \<open>\<mu>s\<close> and then low for 200 \<open>\<mu>s\<close>, \<^verbatim>\<open>highTime\<close> is
  4294967196 and \<^verbatim>\<open>totalTime\<close> is 100, and the next report prints about \<open>1.4 \<times> 10\<^sup>1\<^sup>0\<close>.
\<close>

theorem output_range_counterexample:
  "final initial_state [Poll 4294900 4294900, Edge 4294967196 False, Edge 4294967396 True] =
     \<lparr>highTime = 4294967196, lowTime = 200, lastTransitionTime = 100, lastPrintTime = 4294900\<rparr> \<and>
   lines initial_state [Poll 4294900 4294900, Edge 4294967196 False, Edge 4294967396 True,
                        Poll 4295150 4295150] =
     [(4295150, 3715469692580659 / 262144)] \<and>
   \<not> (3715469692580659 / 262144 :: rat) \<le> 330"
  by (simp add: initial_state_def handleInterrupt_def loop_def wrapped_total duty_cycle_wrapped)

text \<open>
  C10 as the code has it. Whenever \<^verbatim>\<open>highTime + lowTime\<close> does not exceed 32 bits, the number
  printed lies between 0 and 330.
\<close>

theorem printed_value_in_range:
  assumes "snd (loop m1 m2 s) = Some v"
    and "unat (highTime s) + unat (lowTime s) < 2 ^ 32"
  shows "0 \<le> v \<and> v \<le> 330"
proof -
  have fired: "250 \<le> m1 - lastPrintTime s"
    using assms(1) by (auto simp: loop_def split: if_splits)
  let ?t = "highTime s + lowTime s"
  from assms(1) have pos: "0 < ?t" and v: "v = printed_value (dutyCycle (highTime s) ?t)"
    unfolding loop_fired[OF fired] by (auto split: if_splits)
  have "unat ?t = unat (highTime s) + unat (lowTime s)"
    using assms(2) by (simp add: unat_add_lem[THEN iffD1])
  then have le: "highTime s \<le> ?t" by (simp add: word_le_nat_alt)
  have d0: "0 \<le> dutyCycle (highTime s) ?t" by (rule duty_cycle_range(1)[OF pos])
  have "printed_value (dutyCycle (highTime s) ?t) \<le> printed_value 100"
    by (rule printed_value_mono[OF d0 duty_cycle_le_100[OF pos le]])
  then have "v \<le> 330" by (simp only: v printed_value_100)
  moreover have "0 \<le> v" unfolding v by (rule printed_value_nonneg[OF d0])
  ultimately show ?thesis by simp
qed

text \<open>An instance of C10: 7500 and 2500 print 247.5.\<close>

theorem printed_value_in_range_witness:
  "snd (loop 250 250 (initial_state\<lparr>highTime := 7500, lowTime := 2500\<rparr>)) = Some (495 / 2) \<and>
   unat (highTime (initial_state\<lparr>highTime := 7500, lowTime := 2500\<rparr>)) +
   unat (lowTime (initial_state\<lparr>highTime := 7500, lowTime := 2500\<rparr>)) < 2 ^ 32 \<and>
   (0::rat) \<le> 495 / 2 \<and> (495 / 2 :: rat) \<le> 330"
proof -
  have a: "snd (loop 250 250 (initial_state\<lparr>highTime := 7500, lowTime := 2500\<rparr>)) = Some (495 / 2)"
    by (simp add: initial_state_def loop_def duty_cycle_three_quarters)
  have b: "unat (highTime (initial_state\<lparr>highTime := 7500, lowTime := 2500\<rparr>)) +
   unat (lowTime (initial_state\<lparr>highTime := 7500, lowTime := 2500\<rparr>)) < 2 ^ 32"
    by simp
  show ?thesis using a b printed_value_in_range[OF a b] by simp
qed

end
